theory Spec2Isabelle
  imports Complex_Main
begin

section \<open>The credential pool of \<^verbatim>\<open>gemini_manager.py\<close>\<close>

text \<open>
  The module keeps a list of \<^verbatim>\<open>APIKey\<close> objects and hands references to them to its
  callers. In this development a reference to a key is its position in the list
  \<^verbatim>\<open>self.keys\<close>: the list is built once by the constructor and no key is ever added,
  removed or moved. Python's unbounded \<^verbatim>\<open>int\<close> is \<^typ>\<open>int\<close>. A time stamp (a Python
  \<^verbatim>\<open>float\<close> read from \<^verbatim>\<open>time.time()\<close>) is a \<^typ>\<open>real\<close>: only the order of time stamps
  and the sum \<^verbatim>\<open>time.time() + cooldown_seconds\<close> matter below, rounding is not modelled.
  Every reading of the clock is an argument of the function that reads it. The lock
  \<^verbatim>\<open>self.lock\<close> is not modelled: the operations are run one after the other.
\<close>

datatype KeyStatus = AVAILABLE | RATE_LIMITED | EXHAUSTED | ERROR

record APIKey =
  key :: string
  index :: int
  status :: KeyStatus
  last_used :: real
  error_count :: int
  cooldown_until :: real

record GeminiKeyManager =
  keys :: "APIKey list"
  current_index :: nat
  clients :: "int \<rightharpoonup> string"

text \<open>Exceptions are values; \<open>str_exn\<close> is Python's \<^verbatim>\<open>str(e)\<close>.\<close>

datatype exn = Exception string | IndexError | KeyError string | UnboundLocalError string

fun str_exn :: "exn \<Rightarrow> string" where
  "str_exn (Exception msg) = msg"
| "str_exn IndexError = ''list index out of range''"
| "str_exn (KeyError k) = [CHR 0x27] @ k @ [CHR 0x27]"
| "str_exn (UnboundLocalError v) =
     ''cannot access local variable '' @ [CHR 0x27] @ v @ [CHR 0x27]
       @ '' where it is not associated with a value''"

definition new_key :: "nat \<times> string \<Rightarrow> APIKey" where
  "new_key ik = \<lparr>key = snd ik, index = int (fst ik), status = AVAILABLE, last_used = 0,
     error_count = 0, cooldown_until = 0\<rparr>"

definition models :: "(string \<times> string) list" where
  "models = [(''orchestrator'', ''gemini-3-flash-preview''),
             (''vision'', ''gemini-3-flash-preview''),
             (''fallback'', ''gemini-3-flash-preview''),
             (''creative'', ''gemini-3-flash-preview''),
             (''pro'', ''gemini-3-pro-preview'')]"

definition GeminiKeyManager_init :: "string list \<Rightarrow> GeminiKeyManager" where
  "GeminiKeyManager_init api_keys =
     \<lparr>keys = map new_key (enumerate 0 api_keys), current_index = 0, clients = Map.empty\<rparr>"

subsection \<open>\<^verbatim>\<open>get_next_key\<close>\<close>

text \<open>
  The \<^verbatim>\<open>while\<close> loop of \<^verbatim>\<open>get_next_key\<close>, with its counter \<^verbatim>\<open>attempts\<close>. The result is
  the exception raised or the value returned (\<open>None\<close>, or the position of the key
  returned), with the manager as the loop leaves it. Reading \<^verbatim>\<open>self.keys\<close> out of
  range raises \<^verbatim>\<open>IndexError\<close>.
\<close>

function get_next_key_loop ::
  "real \<Rightarrow> nat \<Rightarrow> GeminiKeyManager \<Rightarrow> (exn + nat option) \<times> GeminiKeyManager" where
  "get_next_key_loop current_time attempts m =
     (if attempts < length (keys m) then
        (if current_index m < length (keys m) then
           (let i = current_index m;
                k = keys m ! i;
                m1 = m\<lparr>current_index := (current_index m + 1) mod length (keys m)\<rparr>
            in if status k = AVAILABLE then (Inr (Some i), m1)
               else if status k = RATE_LIMITED \<and> current_time > cooldown_until k then
                 (Inr (Some i),
                  m1\<lparr>keys := (keys m1)[i := k\<lparr>status := AVAILABLE, error_count := 0\<rparr>]\<rparr>)
               else get_next_key_loop current_time (attempts + 1) m1)
         else (Inl IndexError, m))
      else (Inr None, m))"
  by pat_completeness auto
termination
  by (relation "measure (\<lambda>(t, a, m). length (keys m) - a)") auto

declare get_next_key_loop.simps [simp del]

definition get_next_key ::
  "real \<Rightarrow> GeminiKeyManager \<Rightarrow> (exn + nat option) \<times> GeminiKeyManager" where
  "get_next_key current_time m = get_next_key_loop current_time 0 m"

subsection \<open>The transitions of a key\<close>

definition mark_rate_limited :: "GeminiKeyManager \<Rightarrow> nat \<Rightarrow> int \<Rightarrow> real \<Rightarrow> GeminiKeyManager" where
  "mark_rate_limited m i cooldown_seconds now =
     m\<lparr>keys := (keys m)[i := (keys m ! i)\<lparr>status := RATE_LIMITED,
          cooldown_until := now + of_int cooldown_seconds,
          error_count := error_count (keys m ! i) + 1\<rparr>]\<rparr>"

definition mark_error :: "GeminiKeyManager \<Rightarrow> nat \<Rightarrow> GeminiKeyManager" where
  "mark_error m i =
     (let k = (keys m ! i)\<lparr>error_count := error_count (keys m ! i) + 1\<rparr>
      in m\<lparr>keys := (keys m)[i := (if error_count k \<ge> 3 then k\<lparr>status := ERROR\<rparr> else k)]\<rparr>)"

definition mark_success :: "GeminiKeyManager \<Rightarrow> nat \<Rightarrow> real \<Rightarrow> GeminiKeyManager" where
  "mark_success m i now =
     m\<lparr>keys := (keys m)[i := (keys m ! i)\<lparr>last_used := now, error_count := 0\<rparr>]\<rparr>"

subsection \<open>\<^verbatim>\<open>get_client\<close> and \<^verbatim>\<open>get_model\<close>\<close>

text \<open>A client handle is modelled by the secret it was created with.\<close>

definition get_client :: "GeminiKeyManager \<Rightarrow> nat \<Rightarrow> string \<times> GeminiKeyManager" where
  "get_client m i =
     (let k = keys m ! i in
      case clients m (index k) of
        None \<Rightarrow> (key k, m\<lparr>clients := (clients m)(index k \<mapsto> key k)\<rparr>)
      | Some c \<Rightarrow> (c, m))"

definition get_model ::
  "real \<Rightarrow> string \<Rightarrow> GeminiKeyManager \<Rightarrow> (exn + string \<times> string \<times> nat) \<times> GeminiKeyManager" where
  "get_model current_time purpose m =
     (case get_next_key current_time m of
        (Inl e, m1) \<Rightarrow> (Inl e, m1)
      | (Inr None, m1) \<Rightarrow> (Inl (Exception ''All API keys exhausted or rate limited''), m1)
      | (Inr (Some i), m1) \<Rightarrow>
          (case get_client m1 i of (client, m2) \<Rightarrow>
             (case map_of models ''fallback'' of
                None \<Rightarrow> (Inl (KeyError ''fallback''), m2)
              | Some fallback \<Rightarrow>
                  (Inr (client,
                        (case map_of models purpose of None \<Rightarrow> fallback | Some n \<Rightarrow> n), i),
                   m2))))"

subsection \<open>Strings\<close>

text \<open>
  A Python string is modelled by a list of \<^typ>\<open>char\<close>, one for each code point below
  256. \<open>lower\<close> is \<^verbatim>\<open>str.lower\<close> on these code points (the letters A to Z and the
  capital letters of Latin-1), \<open>contains sub s\<close> is \<^verbatim>\<open>sub in s\<close>, \<open>strip\<close> is
  \<^verbatim>\<open>str.strip()\<close> and \<open>split_comma\<close> is \<^verbatim>\<open>s.split(",")\<close>.
\<close>

definition lower_char :: "char \<Rightarrow> char" where
  "lower_char c =
     (let n = (of_char c :: nat)
      in if (65 \<le> n \<and> n \<le> 90) \<or> (192 \<le> n \<and> n \<le> 222 \<and> n \<noteq> 215)
         then char_of (n + 32) else c)"

definition lower :: "string \<Rightarrow> string" where
  "lower s = map lower_char s"

fun starts_with :: "string \<Rightarrow> string \<Rightarrow> bool" where
  "starts_with [] s = True"
| "starts_with (a # sub) [] = False"
| "starts_with (a # sub) (c # s) = (a = c \<and> starts_with sub s)"

fun contains :: "string \<Rightarrow> string \<Rightarrow> bool" where
  "contains sub [] = starts_with sub []"
| "contains sub (c # s) = (starts_with sub (c # s) \<or> contains sub s)"

definition is_space :: "char \<Rightarrow> bool" where
  "is_space c =
     (let n = (of_char c :: nat)
      in (9 \<le> n \<and> n \<le> 13) \<or> (28 \<le> n \<and> n \<le> 32) \<or> n = 133 \<or> n = 160)"

definition strip :: "string \<Rightarrow> string" where
  "strip s = rev (dropWhile is_space (rev (dropWhile is_space s)))"

fun split_comma :: "string \<Rightarrow> string list" where
  "split_comma [] = [[]]"
| "split_comma (c # s) =
     (if c = CHR '','' then [] # split_comma s
      else (case split_comma s of [] \<Rightarrow> [[c]] | w # ws \<Rightarrow> (c # w) # ws))"

subsection \<open>\<^verbatim>\<open>call_with_retry\<close>\<close>

text \<open>
  The world outside the module is a parameter. For each attempt of the retry loop it
  gives the clock read by \<^verbatim>\<open>get_next_key\<close>, what the request does for a client, a model
  name and a prompt, and the clock read by \<^verbatim>\<open>mark_success\<close> or \<^verbatim>\<open>mark_rate_limited\<close>
  afterwards; \<^verbatim>\<open>time.sleep(1)\<close> is the passing of time between two attempts. The
  request is the expression \<^verbatim>\<open>client.models.generate_content(...)\<close> with the options
  built from the keyword arguments: it returns a response, whose \<^verbatim>\<open>text\<close> is then read,
  or it raises an exception \<^verbatim>\<open>e\<close>, of which only \<^verbatim>\<open>str(e)\<close> is used. Creating a client
  and reading \<^verbatim>\<open>response.text\<close> are taken not to raise.

  The state of a running call is the manager, the local variable \<^verbatim>\<open>key\<close> (\<open>None\<close> while
  no assignment has bound it), the requests made so far and the lines printed.
\<close>

datatype outcome = Response string | Failure string

record attempt_env =
  select_time :: real
  service :: "string \<Rightarrow> string \<Rightarrow> string \<Rightarrow> outcome"
  mark_time :: real

record executor =
  manager :: GeminiKeyManager
  key_var :: "nat option"
  calls :: "(string \<times> string \<times> string) list"
  stdout :: "string list"

text \<open>The body of the \<^verbatim>\<open>try\<close> block: the text returned, or the exception raised in it.\<close>

definition try_block :: "attempt_env \<Rightarrow> string \<Rightarrow> string \<Rightarrow> executor \<Rightarrow> (exn + string) \<times> executor" where
  "try_block env purpose prompt ex =
     (case get_model (select_time env) purpose (manager ex) of
        (Inl e, m1) \<Rightarrow> (Inl e, ex\<lparr>manager := m1\<rparr>)
      | (Inr (client, model_name, i), m1) \<Rightarrow>
          (let ex1 = ex\<lparr>manager := m1, key_var := Some i,
                        calls := calls ex @ [(client, model_name, prompt)]\<rparr>
           in case service env client model_name prompt of
                Failure msg \<Rightarrow> (Inl (Exception msg), ex1)
              | Response text \<Rightarrow>
                  (Inr text, ex1\<lparr>manager := mark_success m1 i (mark_time env)\<rparr>)))"

text \<open>
  The \<^verbatim>\<open>except Exception as e\<close> block. Each of its three branches reads the local
  variable \<^verbatim>\<open>key\<close> first, which raises \<^verbatim>\<open>UnboundLocalError\<close> when nothing has been
  assigned to it in this call.
\<close>

definition read_key :: "executor \<Rightarrow> exn + nat" where
  "read_key ex = (case key_var ex of None \<Rightarrow> Inl (UnboundLocalError ''key'') | Some i \<Rightarrow> Inr i)"

definition except_block :: "attempt_env \<Rightarrow> exn \<Rightarrow> executor \<Rightarrow> (exn + unit) \<times> executor" where
  "except_block env e ex =
     (let error_str = lower (str_exn e) in
      if contains ''quota'' error_str \<or> contains ''rate'' error_str \<or> contains ''429'' error_str then
        (case read_key ex of
           Inl u \<Rightarrow> (Inl u, ex)
         | Inr i \<Rightarrow> (Inr (), ex\<lparr>manager := mark_rate_limited (manager ex) i 60 (mark_time env)\<rparr>))
      else if contains ''resource'' error_str \<or> contains ''exhausted'' error_str then
        (case read_key ex of
           Inl u \<Rightarrow> (Inl u, ex)
         | Inr i \<Rightarrow> (Inr (), ex\<lparr>manager := mark_rate_limited (manager ex) i 300 (mark_time env)\<rparr>))
      else
        (case read_key ex of
           Inl u \<Rightarrow> (Inl u, ex)
         | Inr i \<Rightarrow> (Inr (), ex\<lparr>manager := mark_error (manager ex) i,
                                 stdout := stdout ex @ [''[ERROR] '' @ str_exn e]\<rparr>)))"

text \<open>
  One iteration of the \<^verbatim>\<open>for\<close> loop: it returns a text, lets an exception escape, or
  goes on to the next attempt.
\<close>

datatype control = Return string | Raise exn | Continue

definition loop_body :: "attempt_env \<Rightarrow> string \<Rightarrow> string \<Rightarrow> executor \<Rightarrow> control \<times> executor" where
  "loop_body env purpose prompt ex =
     (case try_block env purpose prompt ex of
        (Inr text, ex1) \<Rightarrow> (Return text, ex1)
      | (Inl e, ex1) \<Rightarrow>
          (case except_block env e ex1 of
             (Inl u, ex2) \<Rightarrow> (Raise u, ex2)
           | (Inr _, ex2) \<Rightarrow> (Continue, ex2)))"

fun for_attempts ::
  "(nat \<Rightarrow> attempt_env) \<Rightarrow> string \<Rightarrow> string \<Rightarrow> nat list \<Rightarrow> executor
     \<Rightarrow> (exn + string option) \<times> executor" where
  "for_attempts world purpose prompt [] ex = (Inr None, ex)"
| "for_attempts world purpose prompt (attempt # rest) ex =
     (case loop_body (world attempt) purpose prompt ex of
        (Return text, ex1) \<Rightarrow> (Inr (Some text), ex1)
      | (Raise u, ex1) \<Rightarrow> (Inl u, ex1)
      | (Continue, ex1) \<Rightarrow> for_attempts world purpose prompt rest ex1)"

definition call_with_retry ::
  "(nat \<Rightarrow> attempt_env) \<Rightarrow> string \<Rightarrow> string \<Rightarrow> int \<Rightarrow> GeminiKeyManager
     \<Rightarrow> (exn + string option) \<times> executor" where
  "call_with_retry world purpose prompt max_retries m =
     for_attempts world purpose prompt [0..<nat max_retries]
       \<lparr>manager = m, key_var = None, calls = [], stdout = []\<rparr>"

subsection \<open>The module level\<close>

text \<open>
  Importing the module reads the environment variable \<^verbatim>\<open>GOOGLE_API_KEY\<close> (\<open>None\<close> when
  it is not set), builds the global \<^verbatim>\<open>key_manager\<close> or leaves it \<^verbatim>\<open>None\<close>, and prints.
  The keyword arguments of \<^verbatim>\<open>call_orchestrator\<close> and \<^verbatim>\<open>call_vision\<close> are passed on to
  \<^verbatim>\<open>call_with_retry\<close>, so a caller can set \<^verbatim>\<open>max_retries\<close> through them (3 when absent).
  Both return their result, the requests sent to the service and the global as the
  call leaves it.
\<close>

definition load_keys :: "string option \<Rightarrow> string list \<times> string list" where
  "load_keys environ =
     (let env_keys = (case environ of None \<Rightarrow> [] | Some v \<Rightarrow> v) in
      if env_keys = [] then ([], [''[WARNING] No GOOGLE_API_KEY found in environment''])
      else (map strip (filter (\<lambda>k. strip k \<noteq> []) (split_comma env_keys)), []))"

record module_state =
  API_KEYS :: "string list"
  key_manager :: "GeminiKeyManager option"
  printed :: "string list"

definition module_init :: "string option \<Rightarrow> module_state" where
  "module_init environ =
     (case load_keys environ of (ks, out) \<Rightarrow>
        if ks \<noteq> [] then
          \<lparr>API_KEYS = ks, key_manager = Some (GeminiKeyManager_init ks), printed = out\<rparr>
        else
          \<lparr>API_KEYS = ks, key_manager = None,
           printed = out @ [''[ERROR] No API keys configured. Set GOOGLE_API_KEY environment variable.'']\<rparr>)"

definition call_purpose ::
  "string \<Rightarrow> (nat \<Rightarrow> attempt_env) \<Rightarrow> string \<Rightarrow> int \<Rightarrow> GeminiKeyManager option
     \<Rightarrow> (exn + string option) \<times> (string \<times> string \<times> string) list \<times> GeminiKeyManager option" where
  "call_purpose purpose world prompt max_retries km =
     (case km of
        None \<Rightarrow> (Inr None, [], None)
      | Some m \<Rightarrow>
          (case call_with_retry world purpose prompt max_retries m of
             (r, ex) \<Rightarrow> (r, calls ex, Some (manager ex))))"

definition call_orchestrator ::
  "(nat \<Rightarrow> attempt_env) \<Rightarrow> string \<Rightarrow> int \<Rightarrow> GeminiKeyManager option
     \<Rightarrow> (exn + string option) \<times> (string \<times> string \<times> string) list \<times> GeminiKeyManager option" where
  "call_orchestrator = call_purpose ''orchestrator''"

definition call_vision ::
  "(nat \<Rightarrow> attempt_env) \<Rightarrow> string \<Rightarrow> int \<Rightarrow> GeminiKeyManager option
     \<Rightarrow> (exn + string option) \<times> (string \<times> string \<times> string) list \<times> GeminiKeyManager option" where
  "call_vision = call_purpose ''vision''"

subsection \<open>Histories of a pool\<close>

text \<open>
  The four operations of the scheduler, each with the clock it reads, and the two
  entry points that are built from them. A history is a list of events applied to
  the manager one after the other.
\<close>

datatype operation =
    Select real
  | MarkRateLimited nat int real
  | MarkError nat
  | MarkSuccess nat real

fun apply_operation :: "operation \<Rightarrow> GeminiKeyManager \<Rightarrow> GeminiKeyManager" where
  "apply_operation (Select now) m = snd (get_next_key now m)"
| "apply_operation (MarkRateLimited i cooldown_seconds now) m = mark_rate_limited m i cooldown_seconds now"
| "apply_operation (MarkError i) m = mark_error m i"
| "apply_operation (MarkSuccess i now) m = mark_success m i now"

datatype event =
    Operation operation
  | GetModel real string
  | CallWithRetry "nat \<Rightarrow> attempt_env" string string int

fun apply_event :: "event \<Rightarrow> GeminiKeyManager \<Rightarrow> GeminiKeyManager" where
  "apply_event (Operation op) m = apply_operation op m"
| "apply_event (GetModel now purpose) m = snd (get_model now purpose m)"
| "apply_event (CallWithRetry world purpose prompt max_retries) m =
     manager (snd (call_with_retry world purpose prompt max_retries m))"

fun run :: "event list \<Rightarrow> GeminiKeyManager \<Rightarrow> GeminiKeyManager" where
  "run [] m = m"
| "run (ev # evs) m = run evs (apply_event ev m)"

text \<open>Consecutive calls of \<^verbatim>\<open>get_next_key\<close>, one for each clock reading, with what each returns.\<close>

fun selects :: "real list \<Rightarrow> GeminiKeyManager \<Rightarrow> (exn + nat option) list \<times> GeminiKeyManager" where
  "selects [] m = ([], m)"
| "selects (now # ts) m =
     (case get_next_key now m of (r, m1) \<Rightarrow>
        (case selects ts m1 of (rs, m2) \<Rightarrow> (r # rs, m2)))"

text \<open>
  A key can be returned by a scan at a given time when it is \<open>AVAILABLE\<close>, or
  \<open>RATE_LIMITED\<close> with its cooldown over.
\<close>

definition selectable :: "real \<Rightarrow> APIKey \<Rightarrow> bool" where
  "selectable now k =
     (status k = AVAILABLE \<or> (status k = RATE_LIMITED \<and> now > cooldown_until k))"

text \<open>
  The scan started at time \<open>now\<close> reaches position \<open>i\<close>: none of the keys it looks at
  before \<open>i\<close> (from the cursor on, wrapping round) can be returned at that time.
\<close>

definition examines :: "real \<Rightarrow> GeminiKeyManager \<Rightarrow> nat \<Rightarrow> bool" where
  "examines now m i =
     (let n = length (keys m); c = current_index m
      in list_all (\<lambda>j. \<not> selectable now (keys m ! ((c + j) mod n))) [0..<(i + n - c) mod n])"

subsection \<open>Example pools and worlds\<close>

definition pool_A :: GeminiKeyManager where
  "pool_A = GeminiKeyManager_init [''A'']"

definition pool_AB :: GeminiKeyManager where
  "pool_AB = GeminiKeyManager_init [''A'', ''B'']"

definition pool_ABC :: GeminiKeyManager where
  "pool_ABC = GeminiKeyManager_init [''A'', ''B'', ''C'']"

text \<open>
  A world in which the first attempt of a call starts at time \<open>t0\<close>, every request takes
  one second and an attempt starts two seconds after the one before; the service
  answers attempt \<open>n\<close> with \<open>answers ! n\<close>, and with \<open>final\<close> once the list is used up.
\<close>

definition scripted :: "real \<Rightarrow> outcome list \<Rightarrow> outcome \<Rightarrow> nat \<Rightarrow> attempt_env" where
  "scripted t0 answers final n =
     \<lparr>select_time = t0 + 2 * real n,
      service = (\<lambda>client model_name prompt. if n < length answers then answers ! n else final),
      mark_time = t0 + 2 * real n + 1\<rparr>"

text \<open>
  Three calls of \<^verbatim>\<open>call_with_retry\<close> with its default \<^verbatim>\<open>max_retries\<close> on a pool of two
  keys, in which the service answers with a server error (an error text with none of
  the five keywords) and then, in the first two calls, with a response; and a fourth
  call, with a given \<^verbatim>\<open>max_retries\<close>, in which the service fails in the same way.
\<close>

definition server_error :: string where
  "server_error = ''500 Internal Server Error''"

definition history_AB :: "event list" where
  "history_AB =
     [CallWithRetry (scripted 100 [Failure server_error] (Response ''ok'')) ''orchestrator'' ''hi'' 3,
      CallWithRetry (scripted 200 [Failure server_error] (Response ''ok'')) ''orchestrator'' ''hi'' 3,
      CallWithRetry (scripted 300 [] (Failure server_error)) ''orchestrator'' ''hi'' 3]"

definition fourth_call :: "int \<Rightarrow> event" where
  "fourth_call max_retries =
     CallWithRetry (scripted 400 [] (Failure server_error)) ''orchestrator'' ''hi'' max_retries"

text \<open>The statuses that the specification gives a credential.\<close>

definition three_state :: "GeminiKeyManager \<Rightarrow> bool" where
  "three_state m = list_all (\<lambda>k. status k \<in> {AVAILABLE, RATE_LIMITED, ERROR}) (keys m)"

section \<open>Properties of the scan\<close>

text \<open>
  The five ways one iteration of the loop of \<^verbatim>\<open>get_next_key\<close> can go, and an induction
  rule that follows them.
\<close>

lemma loop_stop:
  "\<not> a < length (keys m) \<Longrightarrow> get_next_key_loop t a m = (Inr None, m)"
  by (subst get_next_key_loop.simps) simp

lemma loop_index_error:
  "a < length (keys m) \<Longrightarrow> \<not> current_index m < length (keys m) \<Longrightarrow>
   get_next_key_loop t a m = (Inl IndexError, m)"
  by (subst get_next_key_loop.simps) simp

lemma loop_available:
  "a < length (keys m) \<Longrightarrow> current_index m < length (keys m) \<Longrightarrow>
   status (keys m ! current_index m) = AVAILABLE \<Longrightarrow>
   get_next_key_loop t a m =
     (Inr (Some (current_index m)),
      m\<lparr>current_index := (current_index m + 1) mod length (keys m)\<rparr>)"
  by (subst get_next_key_loop.simps) (simp add: Let_def)

lemma loop_recovered:
  "a < length (keys m) \<Longrightarrow> current_index m < length (keys m) \<Longrightarrow>
   status (keys m ! current_index m) = RATE_LIMITED \<Longrightarrow>
   cooldown_until (keys m ! current_index m) < t \<Longrightarrow>
   get_next_key_loop t a m =
     (Inr (Some (current_index m)),
      m\<lparr>current_index := (current_index m + 1) mod length (keys m),
        keys := (keys m)[current_index m :=
                   (keys m ! current_index m)\<lparr>status := AVAILABLE, error_count := 0\<rparr>]\<rparr>)"
  by (subst get_next_key_loop.simps) (simp add: Let_def)

lemma loop_skip:
  "a < length (keys m) \<Longrightarrow> current_index m < length (keys m) \<Longrightarrow>
   \<not> selectable t (keys m ! current_index m) \<Longrightarrow>
   get_next_key_loop t a m =
     get_next_key_loop t (a + 1)
       (m\<lparr>current_index := (current_index m + 1) mod length (keys m)\<rparr>)"
  by (subst get_next_key_loop.simps) (auto simp: Let_def selectable_def)

lemma loop_cases:
  obtains (stop) "\<not> a < length (keys m)"
  | (oob) "a < length (keys m)" "\<not> current_index m < length (keys m)"
  | (avail) "a < length (keys m)" "current_index m < length (keys m)"
      "status (keys m ! current_index m) = AVAILABLE"
  | (recov) "a < length (keys m)" "current_index m < length (keys m)"
      "status (keys m ! current_index m) = RATE_LIMITED"
      "cooldown_until (keys m ! current_index m) < t"
  | (skip) "a < length (keys m)" "current_index m < length (keys m)"
      "\<not> selectable t (keys m ! current_index m)"
  unfolding selectable_def by blast

lemma loop_induct [consumes 0, case_names stop oob avail recov skip]:
  assumes "\<And>a m. \<not> a < length (keys m) \<Longrightarrow> P a m"
    and "\<And>a m. a < length (keys m) \<Longrightarrow> \<not> current_index m < length (keys m) \<Longrightarrow> P a m"
    and "\<And>a m. a < length (keys m) \<Longrightarrow> current_index m < length (keys m) \<Longrightarrow>
           status (keys m ! current_index m) = AVAILABLE \<Longrightarrow> P a m"
    and "\<And>a m. a < length (keys m) \<Longrightarrow> current_index m < length (keys m) \<Longrightarrow>
           status (keys m ! current_index m) = RATE_LIMITED \<Longrightarrow>
           cooldown_until (keys m ! current_index m) < t \<Longrightarrow> P a m"
    and "\<And>a m. a < length (keys m) \<Longrightarrow> current_index m < length (keys m) \<Longrightarrow>
           \<not> selectable t (keys m ! current_index m) \<Longrightarrow>
           P (a + 1) (m\<lparr>current_index := (current_index m + 1) mod length (keys m)\<rparr>) \<Longrightarrow>
           P a m"
  shows "P a m"
proof (induction "length (keys m) - a" arbitrary: a m)
  case 0
  then show ?case using assms(1) by simp
next
  case (Suc n)
  show ?case
  proof (cases rule: loop_cases [where a = a and m = m and t = t])
    case skip
    have "P (a + 1) (m\<lparr>current_index := (current_index m + 1) mod length (keys m)\<rparr>)"
      using Suc.hyps(2) by (intro Suc.hyps(1)) simp
    with skip show ?thesis by (rule assms(5))
  qed (use assms in blast)+
qed

lemma loop_keys:
  "get_next_key_loop t a m = (r, m') \<Longrightarrow>
   keys m' = (case r of
                Inr (Some i) \<Rightarrow>
                  (if status (keys m ! i) = AVAILABLE then keys m
                   else (keys m)[i := (keys m ! i)\<lparr>status := AVAILABLE, error_count := 0\<rparr>])
              | _ \<Rightarrow> keys m)"
proof (induction a m rule: loop_induct [where t = t])
  case (skip a m)
  then show ?case by (simp add: loop_skip split: sum.splits option.splits)
qed (auto simp: loop_stop loop_index_error loop_available loop_recovered)

lemma loop_returned:
  "get_next_key_loop t a m = (Inr (Some i), m') \<Longrightarrow>
   i < length (keys m) \<and> selectable t (keys m ! i)"
proof (induction a m rule: loop_induct [where t = t])
  case (skip a m)
  then show ?case by (simp add: loop_skip)
qed (auto simp: loop_stop loop_index_error loop_available loop_recovered selectable_def)

lemma loop_clients:
  "get_next_key_loop t a m = (r, m') \<Longrightarrow> clients m' = clients m"
proof (induction a m rule: loop_induct [where t = t])
  case (skip a m)
  then show ?case by (simp add: loop_skip)
qed (auto simp: loop_stop loop_index_error loop_available loop_recovered)

lemma next_cursor_lt: "a < (n::nat) \<Longrightarrow> Suc c mod n < n"
proof -
  assume "a < n"
  then have "0 < n" by arith
  then show ?thesis by simp
qed

lemma loop_cursor:
  "get_next_key_loop t a m = (r, m') \<Longrightarrow> current_index m < length (keys m) \<Longrightarrow>
   current_index m' < length (keys m')"
proof (induction a m rule: loop_induct [where t = t])
  case (skip a m)
  then show ?case by (simp add: loop_skip next_cursor_lt)
qed (auto simp: loop_stop loop_index_error loop_available loop_recovered next_cursor_lt)

section \<open>Round robin\<close>

lemma get_next_key_available:
  assumes "current_index m < length (keys m)"
    and "status (keys m ! current_index m) = AVAILABLE"
  shows "get_next_key t m =
     (Inr (Some (current_index m)),
      m\<lparr>current_index := (current_index m + 1) mod length (keys m)\<rparr>)"
  unfolding get_next_key_def using assms by (intro loop_available) auto

lemma selects_all_available:
  assumes "\<forall>k\<in>set (keys m). status k = AVAILABLE"
    and "current_index m < length (keys m)"
  shows "selects ts m =
     (map (\<lambda>j. Inr (Some ((current_index m + j) mod length (keys m)))) [0..<length ts],
      m\<lparr>current_index := (current_index m + length ts) mod length (keys m)\<rparr>)"
  using assms
proof (induction ts arbitrary: m)
  case Nil
  then show ?case by simp
next
  case (Cons now ts)
  let ?N = "length (keys m)" and ?c = "current_index m"
  let ?m1 = "m\<lparr>current_index := (?c + 1) mod ?N\<rparr>"
  have avail: "status (keys m ! ?c) = AVAILABLE"
    using Cons.prems by simp
  have step: "get_next_key now m = (Inr (Some ?c), ?m1)"
    using Cons.prems(2) avail by (rule get_next_key_available)
  have "selects ts ?m1 =
     (map (\<lambda>j. Inr (Some ((current_index ?m1 + j) mod length (keys ?m1)))) [0..<length ts],
      ?m1\<lparr>current_index := (current_index ?m1 + length ts) mod length (keys ?m1)\<rparr>)"
    using Cons.prems by (intro Cons.IH) (simp_all add: next_cursor_lt)
  then have rest: "selects ts ?m1 =
     (map (\<lambda>j. Inr (Some ((?c + Suc j) mod ?N))) [0..<length ts],
      m\<lparr>current_index := (?c + Suc (length ts)) mod ?N\<rparr>)"
    by (simp add: mod_simps)
  have "[0..<length (now # ts)] = 0 # map Suc [0..<length ts]"
    by (simp add: upt_conv_Cons map_Suc_upt del: upt_Suc)
  then show ?case
    using step rest Cons.prems(2) by (simp add: comp_def del: upt_Suc)
qed

lemma rotate_upt:
  assumes "c < n"
  shows "rotate c [0..<n] = map (\<lambda>j. (c + j) mod n) [0..<n]"
  by (rule nth_equalityI) (simp_all add: nth_rotate)

lemma pool_ABC_simps:
  "keys pool_ABC =
     [\<lparr>key = ''A'', index = 0, status = AVAILABLE, last_used = 0, error_count = 0, cooldown_until = 0\<rparr>,
      \<lparr>key = ''B'', index = 1, status = AVAILABLE, last_used = 0, error_count = 0, cooldown_until = 0\<rparr>,
      \<lparr>key = ''C'', index = 2, status = AVAILABLE, last_used = 0, error_count = 0, cooldown_until = 0\<rparr>]"
  "current_index pool_ABC = 0"
  by (simp_all add: pool_ABC_def GeminiKeyManager_init_def new_key_def)

text \<open>
  Claim C2. In a pool of \<open>N \<ge> 1\<close> keys that are all \<open>AVAILABLE\<close>, \<open>N\<close> consecutive calls
  of \<^verbatim>\<open>get_next_key\<close> (at any times) return the positions \<open>c, c + 1, \<dots>\<close> modulo \<open>N\<close>
  from the cursor \<open>c\<close> on, which is the list of all positions rotated to start at the
  cursor, so every key is returned exactly once; the pool is afterwards as it was before.
\<close>

theorem select_round_robin:
  assumes "keys m \<noteq> []"
    and "\<forall>k\<in>set (keys m). status k = AVAILABLE"
    and "current_index m < length (keys m)"
    and "length ts = length (keys m)"
  shows "fst (selects ts m) =
           map (\<lambda>j. Inr (Some ((current_index m + j) mod length (keys m)))) [0..<length (keys m)]
       \<and> fst (selects ts m) =
           map (\<lambda>i. Inr (Some i)) (rotate (current_index m) [0..<length (keys m)])
       \<and> snd (selects ts m) = m"
proof -
  have "selects ts m =
     (map (\<lambda>j. Inr (Some ((current_index m + j) mod length (keys m)))) [0..<length ts],
      m\<lparr>current_index := (current_index m + length ts) mod length (keys m)\<rparr>)"
    using assms(2,3) by (rule selects_all_available)
  then show ?thesis
    using assms(3,4) by (simp add: rotate_upt comp_def)
qed

theorem select_round_robin_witness:
  "fst (selects [10, 11, 12] (pool_ABC\<lparr>current_index := 1\<rparr>)) =
     [Inr (Some 1), Inr (Some 2), Inr (Some 0)]"
proof -
  let ?m = "pool_ABC\<lparr>current_index := 1\<rparr>"
  have h1: "keys ?m \<noteq> []" by (simp add: pool_ABC_simps)
  have h2: "\<forall>k\<in>set (keys ?m). status k = AVAILABLE" by (simp add: pool_ABC_simps)
  have h3: "current_index ?m < length (keys ?m)" by (simp add: pool_ABC_simps)
  have h4: "length [10, 11, 12 :: real] = length (keys ?m)" by (simp add: pool_ABC_simps)
  show ?thesis
    using select_round_robin [OF h1 h2 h3 h4] by (simp add: pool_ABC_simps)
qed

section \<open>The transitions\<close>

text \<open>
  Claim C9. \<^verbatim>\<open>mark_success\<close> sets \<^verbatim>\<open>last_used\<close> of the key to the clock reading and its
  \<^verbatim>\<open>error_count\<close> to 0 whatever it was, and changes nothing else: the other fields of
  the key (its status and \<^verbatim>\<open>cooldown_until\<close> among them), the other keys, the cursor and
  the client cache are as before.
\<close>

theorem mark_success_frame:
  assumes "i < length (keys m)"
  shows "keys (mark_success m i now) ! i = (keys m ! i)\<lparr>last_used := now, error_count := 0\<rparr>
       \<and> last_used (keys (mark_success m i now) ! i) = now
       \<and> error_count (keys (mark_success m i now) ! i) = 0
       \<and> status (keys (mark_success m i now) ! i) = status (keys m ! i)
       \<and> cooldown_until (keys (mark_success m i now) ! i) = cooldown_until (keys m ! i)
       \<and> key (keys (mark_success m i now) ! i) = key (keys m ! i)
       \<and> index (keys (mark_success m i now) ! i) = index (keys m ! i)
       \<and> (\<forall>j. j \<noteq> i \<longrightarrow> keys (mark_success m i now) ! j = keys m ! j)
       \<and> length (keys (mark_success m i now)) = length (keys m)
       \<and> current_index (mark_success m i now) = current_index m
       \<and> clients (mark_success m i now) = clients m"
  using assms by (simp add: mark_success_def)

theorem mark_success_frame_witness:
  "keys (mark_success (mark_rate_limited pool_ABC 1 60 100) 1 101) ! 1 =
     \<lparr>key = ''B'', index = 1, status = RATE_LIMITED, last_used = 101, error_count = 0,
      cooldown_until = 160\<rparr>"
proof -
  have h: "1 < length (keys (mark_rate_limited pool_ABC 1 60 100))"
    by (simp add: mark_rate_limited_def pool_ABC_simps)
  show ?thesis
    using mark_success_frame [OF h, of 101]
    by (simp add: mark_rate_limited_def pool_ABC_simps)
qed

section \<open>Cooldown\<close>

lemma mod_lt_len: "a < (n::nat) \<Longrightarrow> x mod n < n"
proof -
  assume "a < n"
  then have "0 < n" by arith
  then show ?thesis by simp
qed

lemma loop_run:
  assumes "current_index m < length (keys m)"
    and "a + j \<le> length (keys m)"
    and "\<forall>k<j. \<not> selectable t (keys m ! ((current_index m + k) mod length (keys m)))"
  shows "get_next_key_loop t a m =
         get_next_key_loop t (a + j)
           (m\<lparr>current_index := (current_index m + j) mod length (keys m)\<rparr>)"
  using assms(2,3)
proof (induction j)
  case 0
  then show ?case using assms(1) by simp
next
  case (Suc j)
  let ?N = "length (keys m)" and ?c = "current_index m"
  let ?mj = "m\<lparr>current_index := (?c + j) mod ?N\<rparr>"
  have "get_next_key_loop t a m = get_next_key_loop t (a + j) ?mj"
    using Suc by simp
  also have "\<dots> = get_next_key_loop t (a + j + 1)
      (?mj\<lparr>current_index := (current_index ?mj + 1) mod length (keys ?mj)\<rparr>)"
    using Suc.prems assms(1) by (intro loop_skip) (simp_all add: mod_lt_len)
  also have "?mj\<lparr>current_index := (current_index ?mj + 1) mod length (keys ?mj)\<rparr> =
      m\<lparr>current_index := (?c + Suc j) mod ?N\<rparr>"
    by (simp add: mod_simps)
  finally show ?case by simp
qed

lemma examines_reaches:
  assumes "current_index m < length (keys m)" and "i < length (keys m)"
    and "examines t m i"
  shows "get_next_key t m =
         get_next_key_loop t ((i + length (keys m) - current_index m) mod length (keys m))
           (m\<lparr>current_index := i\<rparr>)"
proof -
  let ?N = "length (keys m)" and ?c = "current_index m"
  let ?j = "(i + ?N - ?c) mod ?N"
  have "?j < ?N" using assms(2) by (rule mod_lt_len)
  then have "0 + ?j \<le> ?N" by simp
  moreover have "\<forall>k<?j. \<not> selectable t (keys m ! ((?c + k) mod ?N))"
    using assms(3) by (simp add: examines_def Let_def list_all_iff)
  ultimately have "get_next_key_loop t 0 m =
      get_next_key_loop t (0 + ?j) (m\<lparr>current_index := (?c + ?j) mod ?N\<rparr>)"
    by (rule loop_run [OF assms(1)])
  moreover have "(?c + ?j) mod ?N = i"
  proof -
    have "(?c + ?j) mod ?N = (?c + (i + ?N - ?c)) mod ?N" by (simp add: mod_simps)
    also have "?c + (i + ?N - ?c) = i + ?N" using assms(1) by simp
    finally show ?thesis using assms(2) by simp
  qed
  ultimately show ?thesis by (simp add: get_next_key_def)
qed

lemma get_next_key_examined:
  assumes "current_index m < length (keys m)" and "i < length (keys m)"
    and "examines t m i"
    and "status (keys m ! i) = RATE_LIMITED" and "cooldown_until (keys m ! i) < t"
  shows "get_next_key t m =
     (Inr (Some i),
      m\<lparr>current_index := (i + 1) mod length (keys m),
        keys := (keys m)[i := (keys m ! i)\<lparr>status := AVAILABLE, error_count := 0\<rparr>]\<rparr>)"
proof -
  let ?N = "length (keys m)"
  let ?mi = "m\<lparr>current_index := i\<rparr>"
  have "(i + ?N - current_index m) mod ?N < length (keys ?mi)"
    using assms(2) by (simp add: mod_lt_len)
  then have "get_next_key_loop t ((i + ?N - current_index m) mod ?N) ?mi =
     (Inr (Some (current_index ?mi)),
      ?mi\<lparr>current_index := (current_index ?mi + 1) mod length (keys ?mi),
        keys := (keys ?mi)[current_index ?mi :=
                   (keys ?mi ! current_index ?mi)\<lparr>status := AVAILABLE, error_count := 0\<rparr>]\<rparr>)"
    using assms(2,4,5) by (intro loop_recovered) simp_all
  then show ?thesis
    using examines_reaches [OF assms(1,2,3)] by simp
qed

lemma get_next_key_skips:
  assumes "get_next_key t m = (r, m')" and "i < length (keys m)"
    and "\<not> selectable t (keys m ! i)"
  shows "r \<noteq> Inr (Some i)" and "keys m' ! i = keys m ! i"
    and "length (keys m') = length (keys m)"
proof -
  from assms(1) have run: "get_next_key_loop t 0 m = (r, m')"
    by (simp add: get_next_key_def)
  show ne: "r \<noteq> Inr (Some i)"
    using loop_returned [of t 0 m i m'] run assms(3) by auto
  have ks: "keys m' = (case r of
                Inr (Some i) \<Rightarrow>
                  (if status (keys m ! i) = AVAILABLE then keys m
                   else (keys m)[i := (keys m ! i)\<lparr>status := AVAILABLE, error_count := 0\<rparr>])
              | _ \<Rightarrow> keys m)"
    using run by (rule loop_keys)
  show "keys m' ! i = keys m ! i"
    using ks ne by (auto split: sum.splits option.splits)
  show "length (keys m') = length (keys m)"
    using ks by (auto split: sum.splits option.splits)
qed

lemma selects_skip:
  assumes "i < length (keys m)"
    and "status (keys m ! i) = RATE_LIMITED"
    and "\<forall>now\<in>set ts. now \<le> cooldown_until (keys m ! i)"
  shows "Inr (Some i) \<notin> set (fst (selects ts m))
       \<and> keys (snd (selects ts m)) ! i = keys m ! i
       \<and> length (keys (snd (selects ts m))) = length (keys m)"
  using assms
proof (induction ts arbitrary: m)
  case Nil
  then show ?case by simp
next
  case (Cons now ts)
  obtain r m1 where step: "get_next_key now m = (r, m1)" by (cases "get_next_key now m")
  have unsel: "\<not> selectable now (keys m ! i)"
    using Cons.prems by (simp add: selectable_def)
  note skip = get_next_key_skips [OF step Cons.prems(1) unsel]
  have "Inr (Some i) \<notin> set (fst (selects ts m1))
       \<and> keys (snd (selects ts m1)) ! i = keys m1 ! i
       \<and> length (keys (snd (selects ts m1))) = length (keys m1)"
    using Cons.prems skip by (intro Cons.IH) simp_all
  then show ?case
    using step skip by (auto split: prod.splits)
qed

lemma get_next_key_cursor:
  "current_index m < length (keys m) \<Longrightarrow>
   current_index (snd (get_next_key t m)) < length (keys (snd (get_next_key t m)))"
  using loop_cursor [of t 0 m "fst (get_next_key t m)" "snd (get_next_key t m)"]
  by (simp add: get_next_key_def)

lemma selects_cursor:
  "current_index m < length (keys m) \<Longrightarrow>
   current_index (snd (selects ts m)) < length (keys (snd (selects ts m)))"
proof (induction ts arbitrary: m)
  case Nil
  then show ?case by simp
next
  case (Cons now ts)
  from Cons.prems have "current_index (snd (get_next_key now m))
      < length (keys (snd (get_next_key now m)))"
    by (rule get_next_key_cursor)
  then have "current_index (snd (selects ts (snd (get_next_key now m))))
      < length (keys (snd (selects ts (snd (get_next_key now m)))))"
    by (rule Cons.IH)
  then show ?case by (auto split: prod.splits)
qed

lemma pool_A_simps:
  "keys pool_A =
     [\<lparr>key = ''A'', index = 0, status = AVAILABLE, last_used = 0, error_count = 0, cooldown_until = 0\<rparr>]"
  "current_index pool_A = 0"
  "clients pool_A = Map.empty"
  by (simp_all add: pool_A_def GeminiKeyManager_init_def new_key_def)

lemma pool_AB_simps:
  "keys pool_AB =
     [\<lparr>key = ''A'', index = 0, status = AVAILABLE, last_used = 0, error_count = 0, cooldown_until = 0\<rparr>,
      \<lparr>key = ''B'', index = 1, status = AVAILABLE, last_used = 0, error_count = 0, cooldown_until = 0\<rparr>]"
  "current_index pool_AB = 0"
  "clients pool_AB = Map.empty"
  by (simp_all add: pool_AB_def GeminiKeyManager_init_def new_key_def)

lemmas eval_scheduler =
  get_next_key_def get_next_key_loop.simps Let_def mark_rate_limited_def mark_error_def
  mark_success_def selectable_def examines_def

text \<open>
  Claim C3, as the code has it. The code compares \<^verbatim>\<open>current_time > key.cooldown_until\<close>,
  so the cooldown is over strictly after \<open>t + C\<close>. After a key has been marked
  \<open>RATE_LIMITED\<close> at time \<open>t\<close> with cooldown \<open>C\<close>, no scan at a time up to and including
  \<open>t + C\<close> returns it, and it keeps its status and \<^verbatim>\<open>cooldown_until = t + C\<close>; the first
  scan after that at a time later than \<open>t + C\<close> that reaches the key returns it, with
  status \<open>AVAILABLE\<close> and \<^verbatim>\<open>error_count\<close> 0.
\<close>

theorem cooldown_skip_then_recover:
  fixes C :: int
  assumes "current_index m0 < length (keys m0)" and "i < length (keys m0)"
    and "\<forall>now\<in>set ts. now \<le> t + of_int C"
  defines "m1 \<equiv> snd (selects ts (mark_rate_limited m0 i C t))"
  shows "Inr (Some i) \<notin> set (fst (selects ts (mark_rate_limited m0 i C t)))
       \<and> status (keys m1 ! i) = RATE_LIMITED
       \<and> cooldown_until (keys m1 ! i) = t + of_int C
       \<and> (t + of_int C < now \<and> examines now m1 i \<longrightarrow>
            fst (get_next_key now m1) = Inr (Some i)
          \<and> status (keys (snd (get_next_key now m1)) ! i) = AVAILABLE
          \<and> error_count (keys (snd (get_next_key now m1)) ! i) = 0)"
proof -
  let ?m = "mark_rate_limited m0 i C t"
  have len: "length (keys ?m) = length (keys m0)"
    and cur: "current_index ?m = current_index m0"
    and st: "status (keys ?m ! i) = RATE_LIMITED"
    and cd: "cooldown_until (keys ?m ! i) = t + of_int C"
    using assms(2) by (simp_all add: mark_rate_limited_def)
  have skip: "Inr (Some i) \<notin> set (fst (selects ts ?m))
       \<and> keys (snd (selects ts ?m)) ! i = keys ?m ! i
       \<and> length (keys (snd (selects ts ?m))) = length (keys ?m)"
    using assms(2,3) len st cd by (intro selects_skip) simp_all
  have wf1: "current_index m1 < length (keys m1)"
    unfolding m1_def using assms(1) len cur by (intro selects_cursor) simp
  have i1: "i < length (keys m1)" and st1: "status (keys m1 ! i) = RATE_LIMITED"
    and cd1: "cooldown_until (keys m1 ! i) = t + of_int C"
    using skip assms(2) len st cd by (simp_all add: m1_def)
  have "fst (get_next_key now m1) = Inr (Some i)
          \<and> status (keys (snd (get_next_key now m1)) ! i) = AVAILABLE
          \<and> error_count (keys (snd (get_next_key now m1)) ! i) = 0"
    if "t + of_int C < now" and "examines now m1 i"
    using get_next_key_examined [OF wf1 i1 that(2) st1] that(1) cd1 i1 by simp
  then show ?thesis using skip st1 cd1 by (simp add: m1_def)
qed

theorem cooldown_skip_then_recover_witness:
  "fst (selects [101, 160] (mark_rate_limited (mark_rate_limited pool_AB 0 300 100) 1 60 100))
     = [Inr None, Inr None]
 \<and> (100 :: real) + of_int 60 < 161
 \<and> examines 161
       (snd (selects [101, 160]
          (mark_rate_limited (mark_rate_limited pool_AB 0 300 100) 1 60 100))) 1
 \<and> get_next_key 161
       (snd (selects [101, 160]
          (mark_rate_limited (mark_rate_limited pool_AB 0 300 100) 1 60 100)))
     = (Inr (Some 1),
        \<lparr>keys = [\<lparr>key = ''A'', index = 0, status = RATE_LIMITED, last_used = 0,
                   error_count = 1, cooldown_until = 400\<rparr>,
                 \<lparr>key = ''B'', index = 1, status = AVAILABLE, last_used = 0,
                   error_count = 0, cooldown_until = 160\<rparr>],
         current_index = 0, clients = Map.empty\<rparr>)"
proof -
  let ?m0 = "mark_rate_limited pool_AB 0 300 100"
  have h1: "current_index ?m0 < length (keys ?m0)"
    by (simp add: mark_rate_limited_def pool_AB_simps)
  have h2: "1 < length (keys ?m0)"
    by (simp add: mark_rate_limited_def pool_AB_simps)
  have h3: "\<forall>now\<in>set [101, 160 :: real]. now \<le> 100 + of_int 60" by simp
  show ?thesis
    using cooldown_skip_then_recover [OF h1 h2 h3, of 161]
    by (simp add: eval_scheduler pool_AB_simps mod_Suc)
qed

text \<open>
  Claim C3 as stated fails at the boundary: a scan at time \<open>t + C\<close> exactly (here
  \<open>t = 100\<close>, \<open>C = 60\<close>, a pool of one key) examines the key, does not return it and
  leaves it \<open>RATE_LIMITED\<close>.
\<close>

theorem cooldown_boundary_counterexample:
  "status (keys (mark_rate_limited pool_A 0 60 100) ! 0) = RATE_LIMITED
 \<and> cooldown_until (keys (mark_rate_limited pool_A 0 60 100) ! 0) = 100 + 60
 \<and> examines 160 (mark_rate_limited pool_A 0 60 100) 0
 \<and> fst (get_next_key 160 (mark_rate_limited pool_A 0 60 100)) = Inr None
 \<and> status (keys (snd (get_next_key 160 (mark_rate_limited pool_A 0 60 100))) ! 0) = RATE_LIMITED"
  by (simp add: eval_scheduler pool_A_simps)

section \<open>The operations of the scheduler, one by one\<close>

lemma get_next_key_keys:
  "keys (snd (get_next_key t m)) =
     (case fst (get_next_key t m) of
        Inr (Some i) \<Rightarrow>
          (if status (keys m ! i) = AVAILABLE then keys m
           else (keys m)[i := (keys m ! i)\<lparr>status := AVAILABLE, error_count := 0\<rparr>])
      | _ \<Rightarrow> keys m)"
  using loop_keys [of t 0 m "fst (get_next_key t m)" "snd (get_next_key t m)"]
  by (simp add: get_next_key_def)

lemma get_next_key_returned:
  "fst (get_next_key t m) = Inr (Some i) \<Longrightarrow> i < length (keys m) \<and> selectable t (keys m ! i)"
  using loop_returned [of t 0 m i "snd (get_next_key t m)"]
  by (simp add: get_next_key_def prod_eq_iff)

text \<open>
  Claim C4, as the code has it. For every key and every operation of the scheduler:
  \<^verbatim>\<open>mark_success\<close> resets the \<^verbatim>\<open>error_count\<close> of its key to 0, and so does
  \<^verbatim>\<open>get_next_key\<close> for the key it returns when it recovers that key from \<open>RATE_LIMITED\<close>;
  \<^verbatim>\<open>mark_error\<close> and \<^verbatim>\<open>mark_rate_limited\<close> add 1 to the \<^verbatim>\<open>error_count\<close> of their key;
  in every other case the \<^verbatim>\<open>error_count\<close> of a key is unchanged.
\<close>

theorem error_count_operations:
  assumes "j < length (keys m)"
  shows "error_count (keys (apply_operation op m) ! j) =
     (case op of
        Select now \<Rightarrow>
          if fst (get_next_key now m) = Inr (Some j) \<and> status (keys m ! j) = RATE_LIMITED
          then 0 else error_count (keys m ! j)
      | MarkRateLimited i cooldown_seconds now \<Rightarrow>
          if i = j then error_count (keys m ! j) + 1 else error_count (keys m ! j)
      | MarkError i \<Rightarrow>
          if i = j then error_count (keys m ! j) + 1 else error_count (keys m ! j)
      | MarkSuccess i now \<Rightarrow>
          if i = j then 0 else error_count (keys m ! j))"
proof (cases op)
  case (Select now)
  have "i < length (keys m) \<and> selectable now (keys m ! i)"
    if "fst (get_next_key now m) = Inr (Some i)" for i
    using get_next_key_returned [OF that] by simp
  then show ?thesis
    using assms Select
    by (auto simp: get_next_key_keys [of now m] selectable_def nth_list_update
             split: sum.splits option.splits)
next
  case (MarkRateLimited i cooldown_seconds now)
  then show ?thesis using assms by (cases "i = j") (simp_all add: mark_rate_limited_def)
next
  case (MarkError i)
  then show ?thesis using assms by (cases "i = j") (simp_all add: mark_error_def Let_def)
next
  case (MarkSuccess i now)
  then show ?thesis using assms by (cases "i = j") (simp_all add: mark_success_def)
qed

theorem error_count_operations_witness:
  "error_count (keys (apply_operation (MarkError 1) (mark_rate_limited pool_AB 1 60 100)) ! 1) = 2"
proof -
  have h: "1 < length (keys (mark_rate_limited pool_AB 1 60 100))"
    by (simp add: mark_rate_limited_def pool_AB_simps)
  show ?thesis
    using error_count_operations [OF h, of "MarkError 1"]
    by (simp add: mark_rate_limited_def pool_AB_simps)
qed

text \<open>
  Claim C4 as stated fails: \<^verbatim>\<open>get_next_key\<close>, which is not a successful call, takes the
  \<^verbatim>\<open>error_count\<close> of a key whose cooldown is over from 1 down to 0.
\<close>

theorem error_count_select_counterexample:
  "error_count (keys (mark_rate_limited pool_A 0 60 100) ! 0) = 1
 \<and> error_count (keys (apply_operation (Select 161) (mark_rate_limited pool_A 0 60 100)) ! 0) = 0"
  by (simp add: eval_scheduler pool_A_simps)

text \<open>
  Claim C5, as the code has it. A key whose status is \<open>ERROR\<close> keeps that status under
  \<^verbatim>\<open>get_next_key\<close>, \<^verbatim>\<open>mark_error\<close>, \<^verbatim>\<open>mark_success\<close> and under \<^verbatim>\<open>mark_rate_limited\<close> of
  another key; \<^verbatim>\<open>mark_rate_limited\<close> of the key itself sets its status to
  \<open>RATE_LIMITED\<close>, whatever it was.
\<close>

theorem error_status_operations:
  assumes "j < length (keys m)" and "status (keys m ! j) = ERROR"
  shows "status (keys (apply_operation op m) ! j) =
     (case op of
        MarkRateLimited i cooldown_seconds now \<Rightarrow> if i = j then RATE_LIMITED else ERROR
      | _ \<Rightarrow> ERROR)"
proof (cases op)
  case (Select now)
  have "i < length (keys m) \<and> selectable now (keys m ! i)"
    if "fst (get_next_key now m) = Inr (Some i)" for i
    using get_next_key_returned [OF that] by simp
  then show ?thesis
    using assms Select
    by (auto simp: get_next_key_keys [of now m] selectable_def nth_list_update
             split: sum.splits option.splits)
next
  case (MarkRateLimited i cooldown_seconds now)
  then show ?thesis using assms by (cases "i = j") (simp_all add: mark_rate_limited_def)
next
  case (MarkError i)
  then show ?thesis using assms by (cases "i = j") (simp_all add: mark_error_def Let_def)
next
  case (MarkSuccess i now)
  then show ?thesis using assms by (cases "i = j") (simp_all add: mark_success_def)
qed

theorem error_status_operations_witness:
  "status (keys (apply_operation (MarkSuccess 0 200)
             (mark_error (mark_error (mark_error pool_A 0) 0) 0)) ! 0) = ERROR"
proof -
  let ?m = "mark_error (mark_error (mark_error pool_A 0) 0) 0"
  have h1: "0 < length (keys ?m)" by (simp add: eval_scheduler pool_A_simps)
  have h2: "status (keys ?m ! 0) = ERROR" by (simp add: eval_scheduler pool_A_simps)
  show ?thesis
    using error_status_operations [OF h1 h2, of "MarkSuccess 0 200"] by simp
qed

text \<open>
  Claim C5 as stated fails: \<^verbatim>\<open>mark_rate_limited\<close> takes a key out of \<open>ERROR\<close>, and once
  its cooldown is over \<^verbatim>\<open>get_next_key\<close> returns that key as \<open>AVAILABLE\<close>.
\<close>

theorem error_not_terminal_counterexample:
  "status (keys (mark_error (mark_error (mark_error pool_A 0) 0) 0) ! 0) = ERROR
 \<and> status (keys (apply_operation (MarkRateLimited 0 60 100)
               (mark_error (mark_error (mark_error pool_A 0) 0) 0)) ! 0) = RATE_LIMITED
 \<and> status (keys (apply_operation (Select 161)
               (apply_operation (MarkRateLimited 0 60 100)
                  (mark_error (mark_error (mark_error pool_A 0) 0) 0))) ! 0) = AVAILABLE"
  by (simp add: eval_scheduler pool_A_simps)

section \<open>Evaluating the executor\<close>

lemma lower_pool_exhausted:
  "lower ''All API keys exhausted or rate limited'' = ''all api keys exhausted or rate limited''"
  by (simp add: lower_def lower_char_def Let_def char_of_eq_iff)

lemma lower_server_error: "lower server_error = ''500 internal server error''"
  by (simp add: server_error_def lower_def lower_char_def Let_def char_of_eq_iff)

lemma lower_429: "lower ''429 Too Many Requests'' = ''429 too many requests''"
  by (simp add: lower_def lower_char_def Let_def char_of_eq_iff)

lemma classify_pool_exhausted:
  "contains ''rate'' (lower ''All API keys exhausted or rate limited'')"
  by (simp add: lower_pool_exhausted)

lemma classify_server_error:
  "\<not> contains ''quota'' (lower server_error)"
  "\<not> contains ''rate'' (lower server_error)"
  "\<not> contains ''429'' (lower server_error)"
  "\<not> contains ''resource'' (lower server_error)"
  "\<not> contains ''exhausted'' (lower server_error)"
  by (simp_all add: lower_server_error)

lemma classify_429:
  "contains ''429'' (lower ''429 Too Many Requests'')"
  by (simp add: lower_429)

lemma models_simps:
  "map_of models ''fallback'' = Some ''gemini-3-flash-preview''"
  "map_of models ''orchestrator'' = Some ''gemini-3-flash-preview''"
  "map_of models ''vision'' = Some ''gemini-3-flash-preview''"
  by (simp_all add: models_def)

lemma attempts_simps:
  "[0..<1] = [0]" "[0..<3] = [0, 1, 2]" "[0..<4] = [0, 1, 2, 3]"
  by (simp_all add: upt_rec)

lemmas eval_executor =
  call_with_retry_def loop_body_def try_block_def except_block_def read_key_def
  get_model_def get_client_def scripted_def models_simps attempts_simps
  classify_pool_exhausted classify_server_error classify_429

lemma run_append: "run (evs @ evs') m = run evs' (run evs m)"
  by (induction evs arbitrary: m) simp_all

lemma run_history_AB:
  "run history_AB pool_AB =
     \<lparr>keys = [\<lparr>key = ''A'', index = 0, status = ERROR, last_used = 0, error_count = 3,
                cooldown_until = 0\<rparr>,
              \<lparr>key = ''B'', index = 1, status = AVAILABLE, last_used = 203, error_count = 2,
                cooldown_until = 0\<rparr>],
      current_index = 0, clients = [0 \<mapsto> ''A'', 1 \<mapsto> ''B'']\<rparr>"
  by (simp add: history_AB_def eval_executor eval_scheduler pool_AB_simps)

lemma run_fourth_call_once:
  "run (history_AB @ [fourth_call 1]) pool_AB =
     \<lparr>keys = [\<lparr>key = ''A'', index = 0, status = ERROR, last_used = 0, error_count = 3,
                cooldown_until = 0\<rparr>,
              \<lparr>key = ''B'', index = 1, status = ERROR, last_used = 203, error_count = 3,
                cooldown_until = 0\<rparr>],
      current_index = 0, clients = [0 \<mapsto> ''A'', 1 \<mapsto> ''B'']\<rparr>"
  by (simp add: run_append run_history_AB fourth_call_def eval_executor eval_scheduler)

lemma run_fourth_call:
  "run (history_AB @ [fourth_call 3]) pool_AB =
     \<lparr>keys = [\<lparr>key = ''A'', index = 0, status = ERROR, last_used = 0, error_count = 3,
                cooldown_until = 0\<rparr>,
              \<lparr>key = ''B'', index = 1, status = RATE_LIMITED, last_used = 203, error_count = 5,
                cooldown_until = 465\<rparr>],
      current_index = 0, clients = [0 \<mapsto> ''A'', 1 \<mapsto> ''B'']\<rparr>"
  by (simp add: run_append run_history_AB fourth_call_def eval_executor eval_scheduler)

text \<open>
  Claim C6 on the code. In the history above key \<open>B\<close> is answered twice with a response
  and then fails three times in a row with a server error: its status is \<open>ERROR\<close> after
  the third failure, which is the first attempt of the fourth call. The second attempt
  of that call finds no key; the handler takes the text of that exception, which
  contains \<^verbatim>\<open>rate\<close>, for a rate limit of the key of the attempt before and marks key \<open>B\<close>
  \<open>RATE_LIMITED\<close>. A scan after the cooldown returns key \<open>B\<close>, which is \<open>AVAILABLE\<close> again.
\<close>

theorem error_key_returned_again:
  "map error_count (keys (run (take 2 history_AB) pool_AB)) = [2, 0]
 \<and> map status (keys (run history_AB pool_AB)) = [ERROR, AVAILABLE]
 \<and> map error_count (keys (run history_AB pool_AB)) = [3, 2]
 \<and> map status (keys (run (history_AB @ [fourth_call 1]) pool_AB)) = [ERROR, ERROR]
 \<and> map error_count (keys (run (history_AB @ [fourth_call 1]) pool_AB)) = [3, 3]
 \<and> map status (keys (run (history_AB @ [fourth_call 3]) pool_AB)) = [ERROR, RATE_LIMITED]
 \<and> map cooldown_until (keys (run (history_AB @ [fourth_call 3]) pool_AB)) = [0, 465]
 \<and> fst (get_next_key 466 (run (history_AB @ [fourth_call 3]) pool_AB)) = Inr (Some 1)
 \<and> map status (keys (snd (get_next_key 466 (run (history_AB @ [fourth_call 3]) pool_AB))))
      = [ERROR, AVAILABLE]"
proof -
  have "map error_count (keys (run (take 2 history_AB) pool_AB)) = [2, 0]"
    by (simp add: history_AB_def eval_executor eval_scheduler pool_AB_simps)
  moreover have "fst (get_next_key 466 (run (history_AB @ [fourth_call 3]) pool_AB)) = Inr (Some 1)"
    and "map status (keys (snd (get_next_key 466 (run (history_AB @ [fourth_call 3]) pool_AB))))
      = [ERROR, AVAILABLE]"
    by (simp_all add: run_fourth_call eval_scheduler)
  ultimately show ?thesis
    by (simp add: run_history_AB run_fourth_call_once run_fourth_call)
qed

text \<open>
  What the scheduler does for claim C6 when only its own operations are looked at:
  three \<^verbatim>\<open>mark_error\<close> in a row lead to \<open>ERROR\<close>, and no scan returns or changes a key
  whose status is \<open>ERROR\<close>.
\<close>

lemma three_errors:
  assumes "i < length (keys m)" and "0 \<le> error_count (keys m ! i)"
  shows "status (keys (mark_error (mark_error (mark_error m i) i) i) ! i) = ERROR"
  using assms by (simp add: mark_error_def Let_def)

lemma select_skips_error:
  assumes "i < length (keys m)" and "status (keys m ! i) = ERROR"
  shows "fst (get_next_key now m) \<noteq> Inr (Some i)"
    and "keys (snd (get_next_key now m)) ! i = keys m ! i"
proof -
  have "\<not> selectable now (keys m ! i)" using assms(2) by (simp add: selectable_def)
  then show "fst (get_next_key now m) \<noteq> Inr (Some i)"
    and "keys (snd (get_next_key now m)) ! i = keys m ! i"
    using get_next_key_skips [of now m "fst (get_next_key now m)" "snd (get_next_key now m)" i]
      assms(1) by simp_all
qed

section \<open>Exceptions of the executor\<close>

lemma pool_exhausted_first_attempt:
  assumes "fst (get_next_key (select_time (world 0)) m) = Inr None" and "0 < max_retries"
  shows "fst (call_with_retry world purpose prompt max_retries m) = Inl (UnboundLocalError ''key'')"
proof -
  obtain rest where att: "[0..<nat max_retries] = 0 # rest"
    using assms(2) by (cases "nat max_retries") (auto simp: upt_rec)
  obtain m1 where sel: "get_next_key (select_time (world 0)) m = (Inr None, m1)"
    using assms(1) by (cases "get_next_key (select_time (world 0)) m") auto
  show ?thesis
    by (simp add: call_with_retry_def att loop_body_def try_block_def get_model_def sel
        except_block_def read_key_def classify_pool_exhausted)
qed

text \<open>
  Claim C1 on the code. A first call in which the service answers 429 marks the only
  key \<open>RATE_LIMITED\<close> in its first attempt; its two other attempts find no key and
  mark that same key again (\<^verbatim>\<open>error_count\<close> 3, cooldown from the last attempt), and the
  call returns \<^verbatim>\<open>None\<close>. A second call ten seconds later finds no key in its first
  attempt: the handler reads the local variable \<^verbatim>\<open>key\<close>, which is not bound, and
  \<^verbatim>\<open>UnboundLocalError\<close> leaves \<^verbatim>\<open>call_with_retry\<close>, with no request sent.
\<close>

theorem call_with_retry_raises:
  "fst (call_with_retry (scripted 100 [] (Failure ''429 Too Many Requests''))
          ''orchestrator'' ''hi'' 3 pool_A) = Inr None
 \<and> keys (manager (snd (call_with_retry (scripted 100 [] (Failure ''429 Too Many Requests''))
          ''orchestrator'' ''hi'' 3 pool_A)))
     = [\<lparr>key = ''A'', index = 0, status = RATE_LIMITED, last_used = 0, error_count = 3,
         cooldown_until = 165\<rparr>]
 \<and> call_with_retry (scripted 110 [] (Response ''OK'')) ''orchestrator'' ''hi'' 3
      (manager (snd (call_with_retry (scripted 100 [] (Failure ''429 Too Many Requests''))
          ''orchestrator'' ''hi'' 3 pool_A)))
     = (Inl (UnboundLocalError ''key''),
        \<lparr>manager =
           \<lparr>keys = [\<lparr>key = ''A'', index = 0, status = RATE_LIMITED, last_used = 0,
                      error_count = 3, cooldown_until = 165\<rparr>],
            current_index = 0, clients = [0 \<mapsto> ''A'']\<rparr>,
         key_var = None, calls = [], stdout = []\<rparr>)"
proof -
  have first: "call_with_retry (scripted 100 [] (Failure ''429 Too Many Requests''))
      ''orchestrator'' ''hi'' 3 pool_A =
    (Inr None,
     \<lparr>manager =
        \<lparr>keys = [\<lparr>key = ''A'', index = 0, status = RATE_LIMITED, last_used = 0,
                   error_count = 3, cooldown_until = 165\<rparr>],
         current_index = 0, clients = [0 \<mapsto> ''A'']\<rparr>,
      key_var = Some 0,
      calls = [(''A'', ''gemini-3-flash-preview'', ''hi'')], stdout = []\<rparr>)"
    by (simp add: eval_executor eval_scheduler pool_A_simps)
  show ?thesis
    unfolding first by (simp add: eval_executor eval_scheduler)
qed

section \<open>Classification of failures\<close>

lemma get_client_frame:
  "keys (snd (get_client m i)) = keys m"
  "current_index (snd (get_client m i)) = current_index m"
  by (simp_all add: get_client_def Let_def split: option.splits)

lemma get_model_selected:
  assumes "fst (get_model t purpose m) = Inr (client, model_name, i)"
  shows "fst (get_next_key t m) = Inr (Some i)"
    and "keys (snd (get_model t purpose m)) = keys (snd (get_next_key t m))"
    and "i < length (keys (snd (get_model t purpose m)))"
    and "status (keys (snd (get_model t purpose m)) ! i) = AVAILABLE"
proof -
  obtain r m1 where sel: "get_next_key t m = (r, m1)" by (cases "get_next_key t m")
  obtain c m2 where cl: "get_client m1 i = (c, m2)" by (cases "get_client m1 i")
  from assms sel show r: "fst (get_next_key t m) = Inr (Some i)"
    by (auto simp: get_model_def split: sum.splits option.splits prod.splits)
  from r sel have ri: "r = Inr (Some i)" by simp
  from cl have "keys m2 = keys m1" using get_client_frame(1) [of m1 i] by simp
  with sel ri cl show ks: "keys (snd (get_model t purpose m)) = keys (snd (get_next_key t m))"
    by (simp add: get_model_def split: option.splits)
  have i: "i < length (keys m)" and s: "selectable t (keys m ! i)"
    using get_next_key_returned [OF r] by simp_all
  have k1: "keys (snd (get_next_key t m)) =
      (if status (keys m ! i) = AVAILABLE then keys m
       else (keys m)[i := (keys m ! i)\<lparr>status := AVAILABLE, error_count := 0\<rparr>])"
    using get_next_key_keys [of t m] r by simp
  show "i < length (keys (snd (get_model t purpose m)))"
    using ks k1 i by simp
  show "status (keys (snd (get_model t purpose m)) ! i) = AVAILABLE"
    using ks k1 i by simp
qed

text \<open>
  Claim C7. When an attempt has selected key \<open>i\<close> and the request fails with an
  exception of text \<open>msg\<close>, the iteration goes on to the next attempt after exactly one
  transition of that key, chosen from the lowercased text: \<^verbatim>\<open>mark_rate_limited\<close> with
  60 seconds when it contains \<^verbatim>\<open>quota\<close>, \<^verbatim>\<open>rate\<close> or \<^verbatim>\<open>429\<close>; otherwise
  \<^verbatim>\<open>mark_rate_limited\<close> with 300 seconds when it contains \<^verbatim>\<open>resource\<close> or \<^verbatim>\<open>exhausted\<close>;
  otherwise \<^verbatim>\<open>mark_error\<close>, which adds 1 to \<^verbatim>\<open>error_count\<close> and sets the status to
  \<open>ERROR\<close> when the count reaches 3. The other keys, the cursor and the client cache
  are as \<^verbatim>\<open>get_model\<close> left them.
\<close>

theorem failure_classification:
  assumes "fst (get_model (select_time env) purpose (manager ex)) = Inr (client, model_name, i)"
    and "service env client model_name prompt = Failure msg"
  defines "m1 \<equiv> snd (get_model (select_time env) purpose (manager ex))"
  defines "ex' \<equiv> snd (loop_body env purpose prompt ex)"
  defines "short \<equiv> contains ''quota'' (lower msg) \<or> contains ''rate'' (lower msg)
                      \<or> contains ''429'' (lower msg)"
  defines "long \<equiv> contains ''resource'' (lower msg) \<or> contains ''exhausted'' (lower msg)"
  shows "fst (loop_body env purpose prompt ex) = Continue
       \<and> manager ex' =
           (if short then mark_rate_limited m1 i 60 (mark_time env)
            else if long then mark_rate_limited m1 i 300 (mark_time env)
            else mark_error m1 i)
       \<and> keys (manager ex') ! i =
           (if short then
              (keys m1 ! i)\<lparr>status := RATE_LIMITED, cooldown_until := mark_time env + 60,
                 error_count := error_count (keys m1 ! i) + 1\<rparr>
            else if long then
              (keys m1 ! i)\<lparr>status := RATE_LIMITED, cooldown_until := mark_time env + 300,
                 error_count := error_count (keys m1 ! i) + 1\<rparr>
            else if error_count (keys m1 ! i) + 1 \<ge> 3 then
              (keys m1 ! i)\<lparr>error_count := error_count (keys m1 ! i) + 1, status := ERROR\<rparr>
            else
              (keys m1 ! i)\<lparr>error_count := error_count (keys m1 ! i) + 1\<rparr>)
       \<and> (\<forall>j. j \<noteq> i \<longrightarrow> keys (manager ex') ! j = keys m1 ! j)
       \<and> current_index (manager ex') = current_index m1
       \<and> clients (manager ex') = clients m1"
proof -
  obtain r m1' where gm: "get_model (select_time env) purpose (manager ex) = (r, m1')"
    by (cases "get_model (select_time env) purpose (manager ex)")
  with assms(1) have r: "r = Inr (client, model_name, i)" and m1: "m1' = m1"
    by (simp_all add: m1_def)
  have i: "i < length (keys m1)"
    using get_model_selected(3) [OF assms(1)] by (simp add: m1_def)
  have body: "loop_body env purpose prompt ex =
      (Continue,
       ex\<lparr>manager := (if short then mark_rate_limited m1 i 60 (mark_time env)
                       else if long then mark_rate_limited m1 i 300 (mark_time env)
                       else mark_error m1 i),
          key_var := Some i,
          calls := calls ex @ [(client, model_name, prompt)],
          stdout := (if short \<or> long then stdout ex
                     else stdout ex @ [''[ERROR] '' @ msg])\<rparr>)"
    using gm r m1 assms(2)
    by (simp add: loop_body_def try_block_def except_block_def read_key_def Let_def
        short_def long_def)
  show ?thesis
    unfolding ex'_def body using i
    by (simp add: mark_rate_limited_def mark_error_def Let_def)
qed

theorem failure_classification_witness:
  "keys (manager (snd (loop_body (scripted 100 [] (Failure ''429 Too Many Requests'') 0)
      ''orchestrator'' ''hi'' \<lparr>manager = pool_A, key_var = None, calls = [], stdout = []\<rparr>))) ! 0
   = \<lparr>key = ''A'', index = 0, status = RATE_LIMITED, last_used = 0, error_count = 1,
      cooldown_until = 161\<rparr>"
proof -
  let ?env = "scripted 100 [] (Failure ''429 Too Many Requests'') 0"
  let ?ex = "\<lparr>manager = pool_A, key_var = None, calls = [], stdout = []\<rparr>"
  have h1: "fst (get_model (select_time ?env) ''orchestrator'' (manager ?ex))
      = Inr (''A'', ''gemini-3-flash-preview'', 0)"
    by (simp add: eval_executor eval_scheduler pool_A_simps)
  have h2: "service ?env ''A'' ''gemini-3-flash-preview'' ''hi'' = Failure ''429 Too Many Requests''"
    by (simp add: scripted_def)
  show ?thesis
    using failure_classification [OF h1 h2]
    by (simp add: eval_executor eval_scheduler pool_A_simps)
qed

section \<open>No keys configured\<close>

text \<open>
  Claim C8. When no key is configured (\<^verbatim>\<open>_load_keys\<close> returns the empty list), the
  module leaves \<^verbatim>\<open>key_manager\<close> at \<^verbatim>\<open>None\<close> and prints that no API keys are configured;
  \<^verbatim>\<open>call_orchestrator\<close> and \<^verbatim>\<open>call_vision\<close> then return \<^verbatim>\<open>None\<close> at once, with no request
  sent to the service.
\<close>

theorem no_keys_unusable:
  assumes "fst (load_keys environ) = []"
  shows "key_manager (module_init environ) = None
       \<and> last (printed (module_init environ)) =
           ''[ERROR] No API keys configured. Set GOOGLE_API_KEY environment variable.''
       \<and> call_orchestrator world prompt max_retries (key_manager (module_init environ))
           = (Inr None, [], None)
       \<and> call_vision world prompt max_retries (key_manager (module_init environ))
           = (Inr None, [], None)"
  using assms
  by (cases "load_keys environ")
     (simp add: module_init_def call_orchestrator_def call_vision_def call_purpose_def)

theorem no_keys_unusable_witness:
  "fst (load_keys (Some '' , '')) = []
 \<and> key_manager (module_init (Some '' , '')) = None
 \<and> printed (module_init (Some '' , '')) =
     [''[ERROR] No API keys configured. Set GOOGLE_API_KEY environment variable.'']
 \<and> call_orchestrator (scripted 100 [] (Response ''OK'')) ''hi'' 3
       (key_manager (module_init (Some '' , ''))) = (Inr None, [], None)"
proof -
  have h: "fst (load_keys (Some '' , '')) = []"
    by (simp add: load_keys_def strip_def is_space_def Let_def)
  have p: "printed (module_init (Some '' , '')) =
     [''[ERROR] No API keys configured. Set GOOGLE_API_KEY environment variable.'']"
    by (simp add: module_init_def load_keys_def strip_def is_space_def Let_def)
  show ?thesis
    using no_keys_unusable [OF h, of "scripted 100 [] (Response ''OK'')" "''hi''" 3] h p
    by (simp add: call_orchestrator_def call_purpose_def)
qed

section \<open>The statuses that can be reached\<close>

lemma three_state_update:
  assumes "three_state m" and "i < length (keys m) \<Longrightarrow> status x \<in> {AVAILABLE, RATE_LIMITED, ERROR}"
  shows "three_state (m\<lparr>keys := (keys m)[i := x]\<rparr>)"
proof (cases "i < length (keys m)")
  case True
  have "set ((keys m)[i := x]) \<subseteq> insert x (set (keys m))"
    by (rule set_update_subset_insert)
  then show ?thesis
    using assms True by (auto simp: three_state_def list_all_iff)
next
  case False
  then have "(keys m)[i := x] = keys m" by (intro list_update_beyond) simp
  then show ?thesis using assms(1) by (simp add: three_state_def)
qed

lemma three_state_nth:
  "three_state m \<Longrightarrow> i < length (keys m) \<Longrightarrow>
   status (keys m ! i) \<in> {AVAILABLE, RATE_LIMITED, ERROR}"
  by (simp add: three_state_def list_all_length)

lemma three_state_mark_rate_limited:
  "three_state m \<Longrightarrow> three_state (mark_rate_limited m i c now)"
  unfolding mark_rate_limited_def by (rule three_state_update) simp_all

lemma three_state_mark_error:
  "three_state m \<Longrightarrow> three_state (mark_error m i)"
  unfolding mark_error_def Let_def
  by (rule three_state_update) (use three_state_nth [of m i] in auto)

lemma three_state_mark_success:
  "three_state m \<Longrightarrow> three_state (mark_success m i now)"
  unfolding mark_success_def
  by (rule three_state_update) (use three_state_nth [of m i] in auto)

lemma three_state_keys_eq: "keys m' = keys m \<Longrightarrow> three_state m' = three_state m"
  by (simp add: three_state_def)

lemma three_state_get_next_key:
  assumes "three_state m"
  shows "three_state (snd (get_next_key now m))"
proof -
  have "three_state (m\<lparr>keys := (keys m)[i := (keys m ! i)\<lparr>status := AVAILABLE, error_count := 0\<rparr>]\<rparr>)"
    for i using assms by (rule three_state_update) simp
  then have "list_all (\<lambda>k. status k \<in> {AVAILABLE, RATE_LIMITED, ERROR})
      ((keys m)[i := (keys m ! i)\<lparr>status := AVAILABLE, error_count := 0\<rparr>])" for i
    by (simp add: three_state_def)
  then show ?thesis
    using assms
    by (simp add: three_state_def get_next_key_keys [of now m] split: sum.splits option.splits)
qed

lemma get_client_keys: "get_client m i = (c, m2) \<Longrightarrow> keys m2 = keys m"
  using get_client_frame(1) [of m i] by simp

lemma get_model_keys:
  "keys (snd (get_model now purpose m)) = keys (snd (get_next_key now m))"
  by (cases "get_next_key now m")
     (auto simp: get_model_def dest: get_client_keys
           split: sum.splits option.splits prod.splits)

lemma three_state_get_model:
  "three_state m \<Longrightarrow> three_state (snd (get_model now purpose m))"
  using three_state_get_next_key [of m now]
  by (simp add: three_state_keys_eq [OF get_model_keys])

lemma three_state_loop_body:
  assumes "three_state (manager ex)"
  shows "three_state (manager (snd (loop_body env purpose prompt ex)))"
proof -
  have gm: "three_state (snd (get_model (select_time env) purpose (manager ex)))"
    using assms by (rule three_state_get_model)
  have tr: "three_state (manager (snd (try_block env purpose prompt ex)))"
    using gm
    by (cases "get_model (select_time env) purpose (manager ex)")
       (auto simp: try_block_def Let_def three_state_mark_success
             split: sum.splits outcome.splits)
  have exc: "three_state (manager (snd (except_block env e ex1)))"
    if "three_state (manager ex1)" for e ex1
    using that
    by (auto simp: except_block_def read_key_def Let_def three_state_mark_rate_limited
          three_state_mark_error split: option.splits)
  show ?thesis
  proof (cases "try_block env purpose prompt ex")
    case (Pair r ex1)
    with tr have t1: "three_state (manager ex1)" by simp
    show ?thesis
    proof (cases r)
      case (Inr answer)
      then show ?thesis using Pair t1 by (simp add: loop_body_def)
    next
      case (Inl e)
      obtain r2 ex2 where eb: "except_block env e ex1 = (r2, ex2)"
        by (cases "except_block env e ex1")
      have "three_state (manager ex2)" using exc [OF t1, of e] eb by simp
      then show ?thesis using Pair Inl eb by (cases r2) (simp_all add: loop_body_def)
    qed
  qed
qed

lemma three_state_for_attempts:
  "three_state (manager ex) \<Longrightarrow>
   three_state (manager (snd (for_attempts world purpose prompt attempts ex)))"
proof (induction attempts arbitrary: ex)
  case Nil
  then show ?case by simp
next
  case (Cons attempt rest)
  have "three_state (manager (snd (loop_body (world attempt) purpose prompt ex)))"
    using Cons.prems by (rule three_state_loop_body)
  then show ?case
    using Cons.IH [of "snd (loop_body (world attempt) purpose prompt ex)"]
    by (cases "loop_body (world attempt) purpose prompt ex")
       (auto split: control.splits)
qed

lemma three_state_apply_event:
  assumes "three_state m"
  shows "three_state (apply_event ev m)"
proof (cases ev)
  case (Operation op)
  then show ?thesis
    using assms
    by (cases op)
       (simp_all add: three_state_get_next_key three_state_mark_rate_limited
          three_state_mark_error three_state_mark_success)
next
  case (GetModel now purpose)
  then show ?thesis using assms by (simp add: three_state_get_model)
next
  case (CallWithRetry world purpose prompt max_retries)
  then show ?thesis
    using assms by (simp add: call_with_retry_def three_state_for_attempts)
qed

lemma three_state_init: "three_state (GeminiKeyManager_init api_keys)"
  by (simp add: three_state_def GeminiKeyManager_init_def new_key_def list_all_iff)

text \<open>
  Claim C10. Whatever history of scheduler operations, \<^verbatim>\<open>get_model\<close> calls and
  \<^verbatim>\<open>call_with_retry\<close> calls a pool built by the constructor goes through, the status of
  each of its keys is \<open>AVAILABLE\<close>, \<open>RATE_LIMITED\<close> or \<open>ERROR\<close>, never \<open>EXHAUSTED\<close>.
\<close>

theorem reachable_three_state:
  "three_state (run evs (GeminiKeyManager_init api_keys))
 \<and> (\<forall>k\<in>set (keys (run evs (GeminiKeyManager_init api_keys))). status k \<noteq> EXHAUSTED)"
proof -
  have "three_state m \<Longrightarrow> three_state (run evs m)" for m
    by (induction evs arbitrary: m) (simp_all add: three_state_apply_event)
  then have "three_state (run evs (GeminiKeyManager_init api_keys))"
    using three_state_init by blast
  then show ?thesis by (auto simp: three_state_def list_all_iff)
qed

theorem reachable_three_state_witness:
  "map status (keys (run (history_AB @ [fourth_call 3]) (GeminiKeyManager_init [''A'', ''B''])))
     = [ERROR, RATE_LIMITED]"
  using reachable_three_state [of "history_AB @ [fourth_call 3]" "[''A'', ''B'']"]
    run_fourth_call
  by (simp add: pool_AB_def)

end
